theory Spec2Isabelle
  imports Main "HOL-Library.Multiset"
begin

section \<open>The aggregation header \<^verbatim>\<open>litert/rust/wrapper.h\<close>\<close>

text \<open>
  The source is a C header of eighteen lines: an inclusion guard (\<^verbatim>\<open>#ifndef\<close>,
  \<^verbatim>\<open>#define\<close>, \<^verbatim>\<open>#endif\<close>) around thirteen \<^verbatim>\<open>#include\<close> directives. A line of
  the header is a preprocessing directive or a blank line; the trailing comments
  (\<^verbatim>\<open>// IWYU pragma: keep\<close>, the comment after \<^verbatim>\<open>#endif\<close>) are white space to the
  preprocessor and are left out.
\<close>

datatype line = Ifndef string | Define string | Include string | Endif | Blank

text \<open>The file, line by line (lines 1 to 18 of the source).\<close>

definition wrapper_h :: "line list" where
  "wrapper_h =
    [Ifndef ''THIRD_PARTY_ODML_LITERT_LITERT_RUST_WRAPPER_H_'',
     Define ''THIRD_PARTY_ODML_LITERT_LITERT_RUST_WRAPPER_H_'',
     Blank,
     Include ''../c/internal/litert_logging.h'',
     Include ''../c/litert_common.h'',
     Include ''../c/litert_compiled_model.h'',
     Include ''../c/litert_environment.h'',
     Include ''../c/litert_environment_options.h'',
     Include ''../c/litert_event.h'',
     Include ''../c/litert_metrics.h'',
     Include ''../c/litert_model.h'',
     Include ''../c/litert_op_options.h'',
     Include ''../c/litert_opaque_options.h'',
     Include ''../c/litert_options.h'',
     Include ''../c/litert_tensor_buffer.h'',
     Include ''../c/litert_tensor_buffer_requirements.h'',
     Blank,
     Endif]"

text \<open>The guard macro of lines 1, 2 and 18.\<close>

definition guard :: string where
  "guard = ''THIRD_PARTY_ODML_LITERT_LITERT_RUST_WRAPPER_H_''"

text \<open>The include list of a file: the operands of its \<^verbatim>\<open>#include\<close> lines, in textual order.\<close>

fun includes_of :: "line list \<Rightarrow> string list" where
  "includes_of [] = []"
| "includes_of (Include p # ls) = p # includes_of ls"
| "includes_of (Ifndef m # ls) = includes_of ls"
| "includes_of (Define m # ls) = includes_of ls"
| "includes_of (Endif # ls) = includes_of ls"
| "includes_of (Blank # ls) = includes_of ls"

text \<open>The declaration groups the header lists (lines 4 to 16).\<close>

definition groups :: "string list" where
  "groups = includes_of wrapper_h"

text \<open>
  The inclusion-guard idiom: the file opens with \<^verbatim>\<open>#ifndef M\<close>, \<^verbatim>\<open>#define M\<close> and its
  last line is \<^verbatim>\<open>#endif\<close>.
\<close>

fun guard_of :: "line list \<Rightarrow> string option" where
  "guard_of (Ifndef m # Define m' # ls) =
     (if m = m' \<and> ls \<noteq> [] \<and> last ls = Endif then Some m else None)"
| "guard_of ls = None"

text \<open>The entries of a header: its guard, then one content entry per include line.\<close>

datatype entry = GuardEntry string | ContentEntry string

definition entries :: "line list \<Rightarrow> entry list" where
  "entries ls =
     (case guard_of ls of None \<Rightarrow> [] | Some g \<Rightarrow> [GuardEntry g]) @ map ContentEntry (includes_of ls)"

section \<open>The state of a compilation unit\<close>

text \<open>
  What preprocessing a header can change in a compilation unit: the set of macros that
  are defined, and the declarations that are visible. The headers that hold the
  declarations are not among the sources, so the unit of visibility is the declaration
  group: \<open>visible\<close> lists the groups whose declarations the translation unit contains, in
  the order in which it contains them, one entry for each time a group's declarations
  were brought in. The record is extensible: every further component of a compilation
  unit's state is the \<open>more\<close> part of a \<open>cu_state_scheme\<close>.
\<close>

record cu_state =
  macros :: "string set"
  visible :: "string list"

text \<open>The state of a compilation unit before anything has been processed.\<close>

definition fresh :: cu_state where
  "fresh = \<lparr>macros = {}, visible = []\<rparr>"

text \<open>Every name a state makes visible: macro names and declaration groups.\<close>

definition names :: "'a cu_state_scheme \<Rightarrow> string set" where
  "names s = macros s \<union> set (visible s)"

text \<open>
  A duplicate-symbol error: the declarations of some group are in the translation unit
  twice.
\<close>

definition duplicate_symbols :: "'a cu_state_scheme \<Rightarrow> bool" where
  "duplicate_symbols s = (\<not> distinct (visible s))"

section \<open>Resolving a declaration group\<close>

text \<open>
  Modelled from the spec: the thirteen headers under \<^verbatim>\<open>litert/c/\<close> that lines 4 to 16
  include are not among the sources. The spec describes a declaration group as a named
  set of type and function declarations provided by one header, each group a
  self-contained leaf, which can be missing or can itself fail to resolve (for example
  on a missing dependency header). So a file system maps a path to nothing (no such
  file), to a header that fails to resolve with a failure of its own, or to a header that
  provides its declarations. Whether those headers carry inclusion guards of their own
  cannot be read off the sources: a group's declarations come in each time the group is
  resolved.
\<close>

datatype failure =
    FileNotFound string
  | Diagnostic string
  | UnbalancedEndif
  | UnterminatedConditional

datatype header_file = Declarations | Fails failure

type_synonym file_system = "string \<Rightarrow> header_file option"

text \<open>
  The result of resolving one group directly: \<open>Inr s\<close> when the group resolves, leaving
  state \<open>s\<close>; \<open>Inl (f, s)\<close> when it fails with failure \<open>f\<close>, raised in state \<open>s\<close>.
\<close>

type_synonym 'a resolution = "(failure \<times> 'a cu_state_scheme) + 'a cu_state_scheme"

text \<open>
  Modelled from the spec: resolving one declaration group directly. A missing file is
  reported under its path, a failing header reports its own failure, and a header that
  resolves makes its declarations visible after those already there.
\<close>

definition resolve_group :: "file_system \<Rightarrow> string \<Rightarrow> 'a cu_state_scheme \<Rightarrow> 'a resolution" where
  "resolve_group fs p s =
     (case fs p of
        None \<Rightarrow> Inl (FileNotFound p, s)
      | Some (Fails f) \<Rightarrow> Inl (f, s)
      | Some Declarations \<Rightarrow> Inr (s\<lparr>visible := visible s @ [p]\<rparr>))"

text \<open>Whether a group resolves.\<close>

definition resolvable :: "file_system \<Rightarrow> string \<Rightarrow> bool" where
  "resolvable fs p =
     (case fs p of None \<Rightarrow> False | Some (Fails f) \<Rightarrow> False | Some Declarations \<Rightarrow> True)"

section \<open>Failures and outcomes\<close>

text \<open>
  A file that cannot be found ends preprocessing at once. Every other failure is
  reported and preprocessing goes on with the next line; the compilation fails all the
  same.
\<close>

fun fatal :: "failure \<Rightarrow> bool" where
  "fatal (FileNotFound p) = True"
| "fatal (Diagnostic d) = False"
| "fatal UnbalancedEndif = False"
| "fatal UnterminatedConditional = False"

text \<open>
  The outcome of preprocessing: \<open>Inr s\<close> when it ends in state \<open>s\<close> and no failure was
  raised; \<open>Inl (log, s)\<close> when it ends in state \<open>s\<close> and failures were raised: \<open>log\<close>
  lists them in the order in which they were raised, each with the state the compilation
  unit was in at that point.
\<close>

type_synonym 'a outcome =
  "((failure \<times> 'a cu_state_scheme) list \<times> 'a cu_state_scheme) + 'a cu_state_scheme"

text \<open>The outcome \<open>r\<close> of what was preprocessed after the failures \<open>log\<close> had been raised.\<close>

fun after_failures :: "(failure \<times> 'a cu_state_scheme) list \<Rightarrow> 'a outcome \<Rightarrow> 'a outcome" where
  "after_failures log (Inr s) = (if log = [] then Inr s else Inl (log, s))"
| "after_failures log (Inl (log', s)) = Inl (log @ log', s)"

text \<open>
  The state preprocessing ends in, the failures it raised, and whether it succeeded.
\<close>

fun state_of :: "'a outcome \<Rightarrow> 'a cu_state_scheme" where
  "state_of (Inl (log, s)) = s"
| "state_of (Inr s) = s"

fun failures :: "'a outcome \<Rightarrow> (failure \<times> 'a cu_state_scheme) list" where
  "failures (Inl (log, s)) = log"
| "failures (Inr s) = []"

fun succeeds :: "'a outcome \<Rightarrow> bool" where
  "succeeds (Inl e) = False"
| "succeeds (Inr s) = True"

text \<open>
  Resolving a list of groups directly, one after the other, each once, as a compilation
  unit that includes them in that order does.
\<close>

fun resolve_groups :: "file_system \<Rightarrow> string list \<Rightarrow> 'a cu_state_scheme \<Rightarrow> 'a outcome" where
  "resolve_groups fs [] s = Inr s"
| "resolve_groups fs (p # ps) s =
     (case resolve_group fs p s of
        Inl (f, t) \<Rightarrow>
          if fatal f then Inl ([(f, t)], t)
          else after_failures [(f, t)] (resolve_groups fs ps t)
      | Inr s' \<Rightarrow> resolve_groups fs ps s')"

section \<open>Preprocessing a header\<close>

text \<open>
  The preprocessor reads the lines in order. \<open>lvl\<close> counts the conditionals that are open
  and active; \<open>skip\<close> is 0 while lines are processed, and inside a skipped region it
  counts the conditionals opened since (and including) the one that failed.
  \<^item> \<^verbatim>\<open>#ifndef M\<close> opens a conditional; its body is skipped when \<open>M\<close> is defined.
  \<^item> \<^verbatim>\<open>#define M\<close> makes \<open>M\<close> defined.
  \<^item> \<^verbatim>\<open>#include "p"\<close> resolves the header \<open>p\<close> in the current state. When that fails
    because a file cannot be found, preprocessing ends there; any other failure of the
    included header is reported as it is and preprocessing goes on with the next line.
  \<^item> \<^verbatim>\<open>#endif\<close> closes the innermost conditional; one that closes nothing is reported.
  A skipped region executes neither \<^verbatim>\<open>#define\<close> nor \<^verbatim>\<open>#include\<close>. A conditional
  that is still open at the end of the file is reported.
\<close>

fun process :: "file_system \<Rightarrow> line list \<Rightarrow> nat \<Rightarrow> nat \<Rightarrow> 'a cu_state_scheme \<Rightarrow> 'a outcome" where
  "process fs [] lvl skip s =
     (if lvl = 0 \<and> skip = 0 then Inr s else Inl ([(UnterminatedConditional, s)], s))"
| "process fs (Blank # ls) lvl skip s = process fs ls lvl skip s"
| "process fs (Ifndef m # ls) lvl skip s =
     (if 0 < skip then process fs ls lvl (Suc skip) s
      else if m \<in> macros s then process fs ls lvl (Suc 0) s
      else process fs ls (Suc lvl) 0 s)"
| "process fs (Define m # ls) lvl skip s =
     (if 0 < skip then process fs ls lvl skip s
      else process fs ls lvl skip (s\<lparr>macros := insert m (macros s)\<rparr>))"
| "process fs (Include p # ls) lvl skip s =
     (if 0 < skip then process fs ls lvl skip s
      else (case resolve_group fs p s of
              Inl (f, t) \<Rightarrow>
                if fatal f then Inl ([(f, t)], t)
                else after_failures [(f, t)] (process fs ls lvl skip t)
            | Inr s' \<Rightarrow> process fs ls lvl skip s'))"
| "process fs (Endif # ls) lvl skip s =
     (if 0 < skip then process fs ls lvl (skip - 1) s
      else if 0 < lvl then process fs ls (lvl - 1) 0 s
      else after_failures [(UnbalancedEndif, s)] (process fs ls lvl skip s))"

text \<open>Resolving the aggregation header in a compilation unit that is in state \<open>s\<close>.\<close>

definition resolve_header :: "file_system \<Rightarrow> 'a cu_state_scheme \<Rightarrow> 'a outcome" where
  "resolve_header fs s = process fs wrapper_h 0 0 s"

text \<open>
  Resolving the header \<open>n\<close> times in a row. A resolution that ended on a missing file
  ends the compilation; after any other failure the next resolution is still carried
  out, and the failures raised so far stay reported.
\<close>

fun resolve_times :: "file_system \<Rightarrow> nat \<Rightarrow> 'a cu_state_scheme \<Rightarrow> 'a outcome" where
  "resolve_times fs 0 s = Inr s"
| "resolve_times fs (Suc n) s =
     (case resolve_header fs s of
        Inl (log, s') \<Rightarrow>
          if fatal (fst (last log)) then Inl (log, s')
          else after_failures log (resolve_times fs n s')
      | Inr s' \<Rightarrow> resolve_times fs n s')"

text \<open>
  The header with its include lines replaced by includes of \<open>ps\<close>, in that order: lines
  1 to 3 and 17 to 18 stay as they are.
\<close>

definition header_with :: "string list \<Rightarrow> line list" where
  "header_with ps = take 3 wrapper_h @ map Include ps @ drop 16 wrapper_h"

section \<open>The manifest of the specification\<close>

text \<open>
  The declaration groups as the specification names them, in its order. A group's name is
  read off the path of its header: the file name without the prefix \<^verbatim>\<open>litert_\<close> and the
  suffix \<^verbatim>\<open>.h\<close>. Names are compared up to the spelling of the word separator
  (underscore, hyphen or space).
\<close>

definition manifest :: "string list" where
  "manifest =
    [''logging'', ''common'', ''compiled-model'', ''environment'', ''environment options'',
     ''event'', ''metrics'', ''model'', ''op options'', ''opaque options'', ''options'',
     ''tensor buffer'', ''tensor buffer requirements'']"

definition basename :: "string \<Rightarrow> string" where
  "basename p = rev (takeWhile (\<lambda>c. c \<noteq> CHR ''/'') (rev p))"

definition group_name :: "string \<Rightarrow> string" where
  "group_name p = drop 7 (take (length (basename p) - 2) (basename p))"

definition normalise :: "string \<Rightarrow> string" where
  "normalise w = map (\<lambda>c. if c = CHR ''_'' \<or> c = CHR ''-'' then CHR '' '' else c) w"

section \<open>Sample compilation units\<close>

text \<open>
  A file system in which exactly the thirteen listed headers are present and resolve; a
  file system after one header has been removed (or renamed); and a file system in which
  one header fails to resolve with a failure of its own.
\<close>

definition all_present :: file_system where
  "all_present p = (if p \<in> set groups then Some Declarations else None)"

definition without :: "string \<Rightarrow> file_system \<Rightarrow> file_system" where
  "without q fs = fs(q := None)"


text \<open>A compilation unit in which the guard macro is defined and nothing is declared.\<close>

definition guarded :: cu_state where
  "guarded = \<lparr>macros = {''THIRD_PARTY_ODML_LITERT_LITERT_RUST_WRAPPER_H_''}, visible = []\<rparr>"

section \<open>Basic facts\<close>

lemma groups_eq:
  "groups =
    [''../c/internal/litert_logging.h'', ''../c/litert_common.h'',
     ''../c/litert_compiled_model.h'', ''../c/litert_environment.h'',
     ''../c/litert_environment_options.h'', ''../c/litert_event.h'',
     ''../c/litert_metrics.h'', ''../c/litert_model.h'', ''../c/litert_op_options.h'',
     ''../c/litert_opaque_options.h'', ''../c/litert_options.h'',
     ''../c/litert_tensor_buffer.h'', ''../c/litert_tensor_buffer_requirements.h'']"
  by (simp add: groups_def wrapper_h_def)

lemma groups_length: "length groups = 13"
  by (simp add: groups_eq)

lemma groups_distinct: "distinct groups"
  by (simp add: groups_eq)

lemma guard_not_group: "guard \<notin> set groups"
  by (simp add: groups_eq guard_def)

lemma guard_of_wrapper_h: "guard_of wrapper_h = Some guard"
  by (simp add: wrapper_h_def guard_def)

lemma header_with_eq:
  "header_with ps = [Ifndef guard, Define guard, Blank] @ map Include ps @ [Blank, Endif]"
  by (simp add: header_with_def wrapper_h_def guard_def)

lemma header_with_groups: "header_with groups = wrapper_h"
  by (simp add: header_with_eq groups_eq) (simp add: wrapper_h_def guard_def)

subsection \<open>Outcomes\<close>

lemma after_failures_single: "after_failures [e] r = Inl (e # failures r, state_of r)"
  by (induction "[e]" r rule: after_failures.induct) simp_all

lemma state_of_after_failures: "state_of (after_failures log r) = state_of r"
  by (induction log r rule: after_failures.induct) simp_all

lemma after_failures_Inr: "log \<noteq> [] \<Longrightarrow> after_failures log (Inr s) = Inl (log, s)"
  by simp

subsection \<open>Resolving one group\<close>

lemma resolve_group_resolvable:
  "resolvable fs p \<Longrightarrow> resolve_group fs p s = Inr (s\<lparr>visible := visible s @ [p]\<rparr>)"
  by (simp add: resolvable_def resolve_group_def split: option.splits header_file.splits)

lemma resolve_group_unresolvable:
  "\<not> resolvable fs p \<Longrightarrow> \<exists>f. resolve_group fs p s = Inl (f, s)"
  by (simp add: resolvable_def resolve_group_def split: option.splits header_file.splits)


lemma resolvable_all_present: "resolvable all_present q = (q \<in> set groups)"
  by (simp add: resolvable_def all_present_def)

lemma resolvable_without: "resolvable (without p fs) q = (q \<noteq> p \<and> resolvable fs q)"
  by (simp add: resolvable_def without_def)


lemma resolve_group_without: "resolve_group (without p fs) p s = Inl (FileNotFound p, s)"
  by (simp add: resolve_group_def without_def)


lemma all_present_resolvable: "list_all (resolvable all_present) groups"
  by (simp add: list_all_iff resolvable_def all_present_def)

subsection \<open>Resolving a list of groups\<close>

lemma resolve_groups_resolvable:
  "resolvable fs p \<Longrightarrow>
   resolve_groups fs (p # ps) s = resolve_groups fs ps (s\<lparr>visible := visible s @ [p]\<rparr>)"
  by (simp add: resolve_group_resolvable)

lemma resolve_groups_fails:
  "resolve_group fs p s = Inl (f, s) \<Longrightarrow>
   resolve_groups fs (p # ps) s =
     (if fatal f then Inl ([(f, s)], s)
      else Inl ((f, s) # failures (resolve_groups fs ps s), state_of (resolve_groups fs ps s)))"
  by (simp add: after_failures_single)

declare resolve_groups.simps(2) [simp del]

text \<open>Groups that resolve are passed one by one, each becoming visible.\<close>

lemma resolve_groups_append_resolvable:
  "list_all (resolvable fs) xs \<Longrightarrow>
   resolve_groups fs (xs @ ys) s = resolve_groups fs ys (s\<lparr>visible := visible s @ xs\<rparr>)"
  by (induction xs arbitrary: s) (simp_all add: resolve_groups_resolvable)

lemma resolve_groups_all:
  "list_all (resolvable fs) ps \<Longrightarrow> resolve_groups fs ps s = Inr (s\<lparr>visible := visible s @ ps\<rparr>)"
  using resolve_groups_append_resolvable [of fs ps "[]" s] by simp

text \<open>Up to the first group that does not resolve, nothing is reported.\<close>

lemma resolve_groups_drop:
  assumes "j \<le> length ps" and "\<forall>i<j. resolvable fs (ps ! i)"
  shows "resolve_groups fs ps s =
           resolve_groups fs (drop j ps) (s\<lparr>visible := visible s @ take j ps\<rparr>)"
proof -
  have "list_all (resolvable fs) (take j ps)"
    using assms by (simp add: list_all_length)
  then have "resolve_groups fs (take j ps @ drop j ps) s =
      resolve_groups fs (drop j ps) (s\<lparr>visible := visible s @ take j ps\<rparr>)"
    by (rule resolve_groups_append_resolvable)
  then show ?thesis by simp
qed

lemma resolve_groups_first_failure:
  assumes "j < length ps" and "\<forall>i<j. resolvable fs (ps ! i)"
    and "resolve_group fs (ps ! j) (s\<lparr>visible := visible s @ take j ps\<rparr>) =
           Inl (f, s\<lparr>visible := visible s @ take j ps\<rparr>)"
  shows "resolve_groups fs ps s =
     (if fatal f then
        Inl ([(f, s\<lparr>visible := visible s @ take j ps\<rparr>)], s\<lparr>visible := visible s @ take j ps\<rparr>)
      else
        Inl ((f, s\<lparr>visible := visible s @ take j ps\<rparr>) #
               failures (resolve_groups fs (drop (Suc j) ps) (s\<lparr>visible := visible s @ take j ps\<rparr>)),
             state_of (resolve_groups fs (drop (Suc j) ps) (s\<lparr>visible := visible s @ take j ps\<rparr>))))"
proof -
  let ?t = "s\<lparr>visible := visible s @ take j ps\<rparr>"
  have "resolve_groups fs ps s = resolve_groups fs (drop j ps) ?t"
    using assms(1,2) by (intro resolve_groups_drop) simp_all
  also have "drop j ps = ps ! j # drop (Suc j) ps"
    using assms(1) by (simp add: Cons_nth_drop_Suc)
  finally show ?thesis
    using resolve_groups_fails [OF assms(3)] by simp
qed

lemma resolve_groups_succeeds:
  "succeeds (resolve_groups fs ps s) = list_all (resolvable fs) ps"
proof (induction ps arbitrary: s)
  case Nil
  show ?case by simp
next
  case (Cons p ps)
  show ?case
  proof (cases "resolvable fs p")
    case True
    then show ?thesis by (simp add: resolve_groups_resolvable Cons.IH)
  next
    case False
    then obtain f where "resolve_group fs p s = Inl (f, s)"
      using resolve_group_unresolvable by blast
    then show ?thesis using False by (simp add: resolve_groups_fails)
  qed
qed

lemma resolve_groups_macros: "macros (state_of (resolve_groups fs ps s)) = macros s"
proof (induction ps arbitrary: s)
  case Nil
  show ?case by simp
next
  case (Cons p ps)
  show ?case
  proof (cases "resolvable fs p")
    case True
    then show ?thesis by (simp add: resolve_groups_resolvable Cons.IH)
  next
    case False
    then obtain f where "resolve_group fs p s = Inl (f, s)"
      using resolve_group_unresolvable by blast
    then show ?thesis by (simp add: resolve_groups_fails Cons.IH)
  qed
qed

lemma resolve_groups_more:
  "cu_state.more (state_of (resolve_groups fs ps s)) = cu_state.more s"
proof (induction ps arbitrary: s)
  case Nil
  show ?case by simp
next
  case (Cons p ps)
  show ?case
  proof (cases "resolvable fs p")
    case True
    then show ?thesis by (simp add: resolve_groups_resolvable Cons.IH)
  next
    case False
    then obtain f where "resolve_group fs p s = Inl (f, s)"
      using resolve_group_unresolvable by blast
    then show ?thesis by (simp add: resolve_groups_fails Cons.IH)
  qed
qed

text \<open>
  The groups that have become visible are the resolving ones among an initial segment of
  the list, in the order of the list.
\<close>

lemma resolve_groups_visible:
  "\<exists>n. visible (state_of (resolve_groups fs ps s)) =
         visible s @ filter (resolvable fs) (take n ps)"
proof (induction ps arbitrary: s)
  case Nil
  show ?case by simp
next
  case (Cons p ps)
  show ?case
  proof (cases "resolvable fs p")
    case True
    obtain n where "visible (state_of (resolve_groups fs ps (s\<lparr>visible := visible s @ [p]\<rparr>))) =
        visible (s\<lparr>visible := visible s @ [p]\<rparr>) @ filter (resolvable fs) (take n ps)"
      using Cons.IH by blast
    then have "visible (state_of (resolve_groups fs (p # ps) s)) =
        visible s @ filter (resolvable fs) (take (Suc n) (p # ps))"
      using True by (simp add: resolve_groups_resolvable)
    then show ?thesis by blast
  next
    case False
    then obtain f where f: "resolve_group fs p s = Inl (f, s)"
      using resolve_group_unresolvable by blast
    show ?thesis
    proof (cases "fatal f")
      case True
      then have "visible (state_of (resolve_groups fs (p # ps) s)) =
          visible s @ filter (resolvable fs) (take 0 (p # ps))"
        using f by (simp add: resolve_groups_fails)
      then show ?thesis by blast
    next
      case nf: False
      obtain n where "visible (state_of (resolve_groups fs ps s)) =
          visible s @ filter (resolvable fs) (take n ps)"
        using Cons.IH by blast
      then have "visible (state_of (resolve_groups fs (p # ps) s)) =
          visible s @ filter (resolvable fs) (take (Suc n) (p # ps))"
        using f nf False by (simp add: resolve_groups_fails)
      then show ?thesis by blast
    qed
  qed
qed



lemma resolve_groups_Inl_failures:
  "resolve_groups fs ps s = Inl (log, t) \<Longrightarrow> log \<noteq> []"
proof (induction ps arbitrary: s)
  case Nil
  then show ?case by simp
next
  case (Cons p ps)
  show ?case
  proof (cases "resolvable fs p")
    case True
    then show ?thesis
      using Cons.prems Cons.IH [of "s\<lparr>visible := visible s @ [p]\<rparr>"]
      by (simp add: resolve_groups_resolvable)
  next
    case False
    then obtain f where "resolve_group fs p s = Inl (f, s)"
      using resolve_group_unresolvable by blast
    then show ?thesis
      using Cons.prems by (auto simp: resolve_groups_fails split: if_splits)
  qed
qed

text \<open>In a list that has an element without \<open>P\<close>, there is a first such element.\<close>

lemma first_failure_index:
  assumes "\<not> list_all P xs"
  shows "\<exists>j<length xs. (\<forall>i<j. P (xs ! i)) \<and> \<not> P (xs ! j)"
proof -
  let ?j = "length (takeWhile P xs)"
  have "takeWhile P xs \<noteq> xs" using assms by (simp add: list_all_iff)
  then have "?j \<noteq> length xs"
    using takeWhile_eq_take [of P xs] by auto
  then have lt: "?j < length xs"
    using length_takeWhile_le [of P xs] by simp
  have "\<forall>i<?j. P (xs ! i)"
  proof (intro allI impI)
    fix i assume i: "i < ?j"
    then have "takeWhile P xs ! i \<in> set (takeWhile P xs)" by simp
    then have "P (takeWhile P xs ! i)" by (blast dest: set_takeWhileD)
    then show "P (xs ! i)" using i by (simp add: takeWhile_nth)
  qed
  moreover have "\<not> P (xs ! ?j)" using lt by (rule nth_length_takeWhile)
  ultimately show ?thesis using lt by blast
qed

subsection \<open>Preprocessing the header\<close>

lemma process_skip_includes:
  "0 < skip \<Longrightarrow> process fs (map Include ps @ rest) lvl skip s = process fs rest lvl skip s"
  by (induction ps) simp_all

lemma process_includes:
  "process fs (map Include ps @ [Blank, Endif]) (Suc 0) 0 s = resolve_groups fs ps s"
  by (induction ps arbitrary: s)
    (simp_all add: resolve_groups.simps split: sum.splits prod.splits)

lemma process_header_with_defined:
  "guard \<in> macros s \<Longrightarrow> process fs (header_with ps) 0 0 s = Inr s"
  by (simp add: header_with_eq process_skip_includes)

lemma process_header_with_undefined:
  "guard \<notin> macros s \<Longrightarrow>
   process fs (header_with ps) 0 0 s =
     resolve_groups fs ps (s\<lparr>macros := insert guard (macros s)\<rparr>)"
  by (simp add: header_with_eq process_includes)

lemma resolve_header_defined: "guard \<in> macros s \<Longrightarrow> resolve_header fs s = Inr s"
  using process_header_with_defined [of s fs groups]
  by (simp add: resolve_header_def header_with_groups)

lemma resolve_header_undefined:
  "guard \<notin> macros s \<Longrightarrow>
   resolve_header fs s = resolve_groups fs groups (s\<lparr>macros := insert guard (macros s)\<rparr>)"
  using process_header_with_undefined [of s fs groups]
  by (simp add: resolve_header_def header_with_groups)

lemma resolve_header_guard: "guard \<in> macros (state_of (resolve_header fs s))"
proof (cases "guard \<in> macros s")
  case True
  then show ?thesis by (simp add: resolve_header_defined)
next
  case False
  then show ?thesis by (simp add: resolve_header_undefined resolve_groups_macros)
qed

lemma resolve_header_again:
  assumes "resolve_header fs s = Inr s'"
  shows "resolve_header fs s' = Inr s'"
proof -
  have "guard \<in> macros (state_of (resolve_header fs s))"
    by (rule resolve_header_guard)
  then have "guard \<in> macros s'" using assms by simp
  then show ?thesis by (rule resolve_header_defined)
qed

lemma resolve_header_Inl_failures:
  assumes "resolve_header fs s = Inl (log, t)"
  shows "log \<noteq> [] \<and> guard \<notin> macros s"
proof (cases "guard \<in> macros s")
  case True
  then show ?thesis using assms by (simp add: resolve_header_defined)
next
  case False
  then have "resolve_groups fs groups (s\<lparr>macros := insert guard (macros s)\<rparr>) = Inl (log, t)"
    using assms by (simp add: resolve_header_undefined)
  then have "log \<noteq> []" by (rule resolve_groups_Inl_failures)
  then show ?thesis using False by simp
qed

lemma resolve_times_defined:
  "guard \<in> macros s \<Longrightarrow> resolve_times fs n s = Inr s"
  by (induction n) (simp_all add: resolve_header_defined)

lemma resolve_times_Suc: "resolve_times fs (Suc n) s = resolve_header fs s"
proof (cases "resolve_header fs s")
  case (Inr s')
  then have "guard \<in> macros s'"
    using resolve_header_guard [of fs s] by simp
  then show ?thesis using Inr by (simp add: resolve_times_defined)
next
  case (Inl a)
  obtain log s' where a: "a = (log, s')" by (cases a)
  have g: "guard \<in> macros s'"
    using resolve_header_guard [of fs s] Inl a by simp
  have ne: "log \<noteq> []"
    using resolve_header_Inl_failures Inl a by blast
  show ?thesis
    using Inl a ne by (simp add: resolve_times_defined [OF g])
qed

subsection \<open>Sample runs\<close>

lemma guard_fresh: "guard \<notin> macros fresh"
  by (simp add: fresh_def)

lemma guard_guarded: "guard \<in> macros guarded"
  by (simp add: guarded_def guard_def)

lemma resolve_header_all_present_fresh:
  "resolve_header all_present fresh = Inr \<lparr>macros = {guard}, visible = groups\<rparr>"
  by (simp add: resolve_header_undefined guard_fresh resolve_groups_all all_present_resolvable)
    (simp add: fresh_def)

text \<open>The header run on a file system from which \<^verbatim>\<open>litert_metrics.h\<close> has been removed.\<close>

lemma resolve_header_without_metrics:
  "resolve_header (without ''../c/litert_metrics.h'' all_present) fresh =
     Inl ([(FileNotFound ''../c/litert_metrics.h'',
            \<lparr>macros = {guard},
             visible = [''../c/internal/litert_logging.h'', ''../c/litert_common.h'',
               ''../c/litert_compiled_model.h'', ''../c/litert_environment.h'',
               ''../c/litert_environment_options.h'', ''../c/litert_event.h'']\<rparr>)],
          \<lparr>macros = {guard},
           visible = [''../c/internal/litert_logging.h'', ''../c/litert_common.h'',
             ''../c/litert_compiled_model.h'', ''../c/litert_environment.h'',
             ''../c/litert_environment_options.h'', ''../c/litert_event.h'']\<rparr>)"
proof -
  have "resolve_groups (without ''../c/litert_metrics.h'' all_present) groups
          (fresh\<lparr>macros := insert guard (macros fresh)\<rparr>) =
     Inl ([(FileNotFound ''../c/litert_metrics.h'',
            \<lparr>macros = {guard},
             visible = [''../c/internal/litert_logging.h'', ''../c/litert_common.h'',
               ''../c/litert_compiled_model.h'', ''../c/litert_environment.h'',
               ''../c/litert_environment_options.h'', ''../c/litert_event.h'']\<rparr>)],
          \<lparr>macros = {guard},
           visible = [''../c/internal/litert_logging.h'', ''../c/litert_common.h'',
             ''../c/litert_compiled_model.h'', ''../c/litert_environment.h'',
             ''../c/litert_environment_options.h'', ''../c/litert_event.h'']\<rparr>)"
    unfolding groups_eq
    by (simp add: resolve_groups.simps resolve_group_def without_def all_present_def
        groups_eq fresh_def)
  then show ?thesis
    by (simp add: resolve_header_undefined guard_fresh)
qed



section \<open>The claims\<close>

text \<open>
  Claim C8: the header consists of exactly fourteen entries, the inclusion guard and
  thirteen content entries, in a fixed textual order: logging, common, compiled-model,
  environment, environment options, event, metrics, model, op options, opaque options,
  options, tensor buffer, tensor buffer requirements, which is the order of the
  specification's manifest.
\<close>

theorem wrapper_h_entries:
  "entries wrapper_h =
     [GuardEntry ''THIRD_PARTY_ODML_LITERT_LITERT_RUST_WRAPPER_H_'',
      ContentEntry ''../c/internal/litert_logging.h'',
      ContentEntry ''../c/litert_common.h'',
      ContentEntry ''../c/litert_compiled_model.h'',
      ContentEntry ''../c/litert_environment.h'',
      ContentEntry ''../c/litert_environment_options.h'',
      ContentEntry ''../c/litert_event.h'',
      ContentEntry ''../c/litert_metrics.h'',
      ContentEntry ''../c/litert_model.h'',
      ContentEntry ''../c/litert_op_options.h'',
      ContentEntry ''../c/litert_opaque_options.h'',
      ContentEntry ''../c/litert_options.h'',
      ContentEntry ''../c/litert_tensor_buffer.h'',
      ContentEntry ''../c/litert_tensor_buffer_requirements.h'']
   \<and> length (entries wrapper_h) = 14
   \<and> length (includes_of wrapper_h) = 13
   \<and> map (\<lambda>p. normalise (group_name p)) (includes_of wrapper_h) = map normalise manifest"
proof -
  have e: "entries wrapper_h = GuardEntry guard # map ContentEntry groups"
    by (simp add: entries_def groups_def [symmetric]) (simp add: wrapper_h_def guard_def)
  have n: "map (\<lambda>p. normalise (group_name p)) groups = map normalise manifest"
    by (simp add: groups_eq manifest_def normalise_def group_name_def basename_def)
  show ?thesis
    using n by (simp add: e groups_def [symmetric]) (simp add: groups_eq guard_def)
qed

text \<open>
  Claim C2: for every \<open>n \<ge> 1\<close> and every initial state, resolving the header \<open>n\<close> times
  in one compilation unit gives what resolving it once gives; in particular, resolving
  it again in the state a resolution has produced changes nothing.
\<close>

theorem resolve_header_idempotent:
  "1 \<le> n \<Longrightarrow>
   resolve_times fs n s = resolve_header fs s \<and>
   (resolve_header fs s = Inr s' \<longrightarrow> resolve_header fs s' = Inr s')"
proof -
  assume "1 \<le> n"
  then obtain m where "n = Suc m" by (cases n) simp_all
  then show ?thesis
    by (simp only: resolve_times_Suc) (simp add: resolve_header_again)
qed

theorem resolve_header_idempotent_witness:
  "(1::nat) \<le> 3 \<and>
   resolve_times all_present 3 fresh = Inr \<lparr>macros = {guard}, visible = groups\<rparr> \<and>
   resolve_header all_present fresh = Inr \<lparr>macros = {guard}, visible = groups\<rparr> \<and>
   resolve_header all_present \<lparr>macros = {guard}, visible = groups\<rparr> =
     Inr \<lparr>macros = {guard}, visible = groups\<rparr>"
  using resolve_header_idempotent
    [of 3 all_present fresh "\<lparr>macros = {guard}, visible = groups\<rparr>"]
  by (simp add: resolve_header_all_present_fresh)

text \<open>
  Claim C7: resolving the header changes no component of the compilation unit's state
  other than the visible declarations and the record of defined macros, whether the
  resolution succeeds or fails: every other component is as before, the macros are as
  before or have the guard macro added, and the visible declarations are those from
  before followed by listed groups, in the order of the list.
\<close>

theorem resolve_header_frame:
  "cu_state.more (state_of (resolve_header fs s)) = cu_state.more s \<and>
   (macros (state_of (resolve_header fs s)) = macros s \<or>
    macros (state_of (resolve_header fs s)) = insert guard (macros s)) \<and>
   (\<exists>n. visible (state_of (resolve_header fs s)) =
          visible s @ filter (resolvable fs) (take n groups))"
proof (cases "guard \<in> macros s")
  case True
  have "\<exists>n. visible s = visible s @ filter (resolvable fs) (take n groups)"
    by (rule exI [of _ 0]) simp
  then show ?thesis using True by (simp add: resolve_header_defined)
next
  case False
  obtain n where
    "visible (state_of (resolve_groups fs groups (s\<lparr>macros := insert guard (macros s)\<rparr>))) =
       visible (s\<lparr>macros := insert guard (macros s)\<rparr>) @ filter (resolvable fs) (take n groups)"
    using resolve_groups_visible by blast
  then have "\<exists>n. visible (state_of (resolve_header fs s)) =
      visible s @ filter (resolvable fs) (take n groups)"
    using False by (auto simp: resolve_header_undefined)
  then show ?thesis
    using False by (simp add: resolve_header_undefined resolve_groups_more resolve_groups_macros)
qed

text \<open>
  Claim C9: resolving the header defines the guard macro
  \<^verbatim>\<open>THIRD_PARTY_ODML_LITERT_LITERT_RUST_WRAPPER_H_\<close>, which is the name of none of the
  thirteen groups and which no group's resolution defines or removes; once the macro is
  defined it is still defined after any number of further resolutions of the header.
\<close>

theorem guard_defined_invariant:
  "guard_of wrapper_h = Some ''THIRD_PARTY_ODML_LITERT_LITERT_RUST_WRAPPER_H_'' \<and>
   ''THIRD_PARTY_ODML_LITERT_LITERT_RUST_WRAPPER_H_'' \<in> macros (state_of (resolve_header fs s)) \<and>
   ''THIRD_PARTY_ODML_LITERT_LITERT_RUST_WRAPPER_H_'' \<notin> set groups \<and>
   macros (state_of (resolve_groups fs groups s)) = macros s \<and>
   (''THIRD_PARTY_ODML_LITERT_LITERT_RUST_WRAPPER_H_'' \<in> macros s \<longrightarrow>
      ''THIRD_PARTY_ODML_LITERT_LITERT_RUST_WRAPPER_H_'' \<in> macros (state_of (resolve_times fs n s)))"
  using guard_of_wrapper_h resolve_header_guard [of fs s] guard_not_group
    resolve_groups_macros [of fs groups s] resolve_times_defined [of s fs n]
  by (simp add: guard_def)

theorem guard_defined_invariant_witness:
  "''THIRD_PARTY_ODML_LITERT_LITERT_RUST_WRAPPER_H_'' \<in> macros guarded \<and>
   ''THIRD_PARTY_ODML_LITERT_LITERT_RUST_WRAPPER_H_'' \<in>
      macros (state_of (resolve_times all_present 2 guarded)) \<and>
   ''THIRD_PARTY_ODML_LITERT_LITERT_RUST_WRAPPER_H_'' \<in>
      macros (state_of (resolve_header all_present fresh))"
  using guard_defined_invariant [of all_present guarded 2]
    guard_defined_invariant [of all_present fresh 0]
  by (simp add: guarded_def)



text \<open>
  Claim C1, as amended: for every state in which the guard macro is not defined and none
  of the thirteen groups has been processed, resolving the header has the outcome of
  resolving each of the thirteen listed groups directly, once each and in the listed
  order, in that state with the guard macro defined; when all thirteen resolve, they are
  appended once each, and a state without a duplicate symbol stays without one.
\<close>

theorem resolve_header_as_groups:
  assumes "guard \<notin> macros s" and "set groups \<inter> set (visible s) = {}"
  shows "resolve_header fs s =
           resolve_groups fs groups (s\<lparr>macros := insert guard (macros s)\<rparr>) \<and>
         length groups = 13 \<and> distinct groups \<and>
         (list_all (resolvable fs) groups \<longrightarrow>
            resolve_header fs s =
              Inr (s\<lparr>macros := insert guard (macros s), visible := visible s @ groups\<rparr>)) \<and>
         (\<not> duplicate_symbols s \<longrightarrow> \<not> duplicate_symbols (state_of (resolve_header fs s)))"
proof -
  let ?s1 = "s\<lparr>macros := insert guard (macros s)\<rparr>"
  have eq: "resolve_header fs s = resolve_groups fs groups ?s1"
    using assms(1) by (rule resolve_header_undefined)
  have ok: "list_all (resolvable fs) groups \<longrightarrow>
      resolve_header fs s =
        Inr (s\<lparr>macros := insert guard (macros s), visible := visible s @ groups\<rparr>)"
    by (simp add: eq resolve_groups_all)
  obtain n where n: "visible (state_of (resolve_groups fs groups ?s1)) =
      visible ?s1 @ filter (resolvable fs) (take n groups)"
    using resolve_groups_visible by blast
  have "set (filter (resolvable fs) (take n groups)) \<subseteq> set groups"
    using set_take_subset [of n groups] by auto
  then have "set (filter (resolvable fs) (take n groups)) \<inter> set (visible s) = {}"
    using assms(2) by blast
  then have "distinct (visible s) \<longrightarrow>
      distinct (visible s @ filter (resolvable fs) (take n groups))"
    using groups_distinct by auto
  then have nodup: "\<not> duplicate_symbols s \<longrightarrow> \<not> duplicate_symbols (state_of (resolve_header fs s))"
    using n by (simp add: duplicate_symbols_def eq)
  show ?thesis
    using eq ok nodup groups_length groups_distinct by blast
qed

theorem resolve_header_as_groups_witness:
  "guard \<notin> macros fresh \<and> set groups \<inter> set (visible fresh) = {} \<and>
   list_all (resolvable all_present) groups \<and> \<not> duplicate_symbols fresh \<and>
   resolve_header all_present fresh =
     resolve_groups all_present groups (fresh\<lparr>macros := insert guard (macros fresh)\<rparr>) \<and>
   resolve_header all_present fresh = Inr \<lparr>macros = {guard}, visible = groups\<rparr> \<and>
   \<not> duplicate_symbols (state_of (resolve_header all_present fresh))"
proof -
  have d: "set groups \<inter> set (visible fresh) = {}" and nd: "\<not> duplicate_symbols fresh"
    by (simp_all add: fresh_def duplicate_symbols_def)
  note t = resolve_header_as_groups [OF guard_fresh d, of all_present]
  have e: "resolve_header all_present fresh =
      resolve_groups all_present groups (fresh\<lparr>macros := insert guard (macros fresh)\<rparr>)"
    using t by blast
  have n: "\<not> duplicate_symbols (state_of (resolve_header all_present fresh))"
    using t nd by blast
  show ?thesis
    using e n d nd guard_fresh all_present_resolvable resolve_header_all_present_fresh
    by blast
qed

text \<open>
  Claim C1 as stated fails where the guard macro is already defined although no group has
  been processed: the header is skipped, and the thirteen groups, resolved directly,
  would all have become visible.
\<close>

theorem resolve_header_as_groups_counterexample:
  "set groups \<inter> set (visible guarded) = {} \<and>
   resolve_header all_present guarded = Inr guarded \<and>
   visible (state_of (resolve_header all_present guarded)) = [] \<and>
   visible (state_of (resolve_groups all_present groups guarded)) = groups \<and>
   visible (state_of (resolve_header all_present guarded)) \<noteq>
     visible (state_of (resolve_groups all_present groups guarded))"
proof -
  have r: "resolve_header all_present guarded = Inr guarded"
    using guard_guarded by (rule resolve_header_defined)
  have g: "resolve_groups all_present groups guarded = Inr (guarded\<lparr>visible := visible guarded @ groups\<rparr>)"
    using all_present_resolvable by (rule resolve_groups_all)
  have v: "visible guarded = []" by (simp add: guarded_def)
  have ne: "groups \<noteq> []" using groups_length by auto
  show ?thesis using ne by (simp add: r g v)
qed

text \<open>
  Claim C3, as amended: resolving the header from a fresh state, all thirteen groups
  resolving, makes visible exactly the declarations of the thirteen groups, each once and
  in the listed order; the one other name it introduces is its own guard macro, which is
  the name of none of the groups.
\<close>

theorem fresh_resolution_names:
  assumes "list_all (resolvable fs) groups"
  shows "resolve_header fs fresh = Inr \<lparr>macros = {guard}, visible = groups\<rparr> \<and>
         names fresh = {} \<and>
         names (state_of (resolve_header fs fresh)) = insert guard (set groups) \<and>
         guard \<notin> set groups"
proof -
  have "resolve_header fs fresh = Inr \<lparr>macros = {guard}, visible = groups\<rparr>"
    using assms
    by (simp add: resolve_header_undefined guard_fresh resolve_groups_all) (simp add: fresh_def)
  then show ?thesis
    using guard_not_group by (simp add: names_def fresh_def)
qed

theorem fresh_resolution_names_witness:
  "list_all (resolvable all_present) groups \<and>
   resolve_header all_present fresh = Inr \<lparr>macros = {guard}, visible = groups\<rparr> \<and>
   names (state_of (resolve_header all_present fresh)) = insert guard (set groups)"
  using fresh_resolution_names [OF all_present_resolvable] all_present_resolvable
  by (simp add: resolve_header_all_present_fresh names_def)

text \<open>
  Claim C3 as stated fails on the guard macro: after the resolution a name is visible
  that was not visible before and that is not one of the thirteen groups.
\<close>

theorem fresh_resolution_names_counterexample:
  "list_all (resolvable all_present) groups \<and>
   guard \<notin> names fresh \<and>
   guard \<in> names (state_of (resolve_header all_present fresh)) \<and>
   guard \<notin> set groups"
proof -
  have "guard \<notin> names fresh" by (simp add: names_def fresh_def)
  moreover have "guard \<in> names (state_of (resolve_header all_present fresh))"
    by (simp add: resolve_header_all_present_fresh names_def)
  ultimately show ?thesis
    using all_present_resolvable guard_not_group by simp
qed




text \<open>
  Claim C5, as amended: for each of the thirteen groups, if that group is removed or
  renamed while the other twelve resolve, then resolving the header in a state in which
  the guard macro is not yet defined fails, and the failure names the missing group: the
  one failure reported is the file-not-found failure for that group's path, raised after
  the groups listed before it have become visible, and preprocessing ends there.
\<close>

theorem removed_group_fails:
  assumes "guard \<notin> macros s" and "p \<in> set groups"
    and "\<forall>q\<in>set groups. q \<noteq> p \<longrightarrow> resolvable fs q"
  shows "resolve_header (without p fs) s =
           Inl ([(FileNotFound p,
                  s\<lparr>macros := insert guard (macros s),
                    visible := visible s @ takeWhile (\<lambda>q. q \<noteq> p) groups\<rparr>)],
                s\<lparr>macros := insert guard (macros s),
                  visible := visible s @ takeWhile (\<lambda>q. q \<noteq> p) groups\<rparr>)"
proof -
  let ?fs = "without p fs"
  let ?s1 = "s\<lparr>macros := insert guard (macros s)\<rparr>"
  have res: "resolvable ?fs q = (q \<noteq> p)" if "q \<in> set groups" for q
    using that assms(3) by (auto simp: resolvable_without)
  have "\<not> list_all (resolvable ?fs) groups"
    using assms(2) res by (auto simp: list_all_iff)
  then obtain j where j: "j < length groups" "\<forall>i<j. resolvable ?fs (groups ! i)"
      "\<not> resolvable ?fs (groups ! j)"
    using first_failure_index [of "resolvable ?fs" groups] by blast
  have gj: "groups ! j = p"
    using j(1,3) res [of "groups ! j"] by simp
  have "\<And>i. i < j \<Longrightarrow> groups ! i \<noteq> p"
    using j(1,2) res by (metis less_trans nth_mem)
  then have tw: "takeWhile (\<lambda>q. q \<noteq> p) groups = take j groups"
    using gj by (intro takeWhile_eq_take_P_nth) simp_all
  have f: "resolve_group ?fs (groups ! j) (?s1\<lparr>visible := visible ?s1 @ take j groups\<rparr>) =
      Inl (FileNotFound p, ?s1\<lparr>visible := visible ?s1 @ take j groups\<rparr>)"
    by (simp add: gj resolve_group_without)
  have "resolve_header ?fs s = resolve_groups ?fs groups ?s1"
    using assms(1) by (rule resolve_header_undefined)
  also have "\<dots> = Inl ([(FileNotFound p, ?s1\<lparr>visible := visible ?s1 @ take j groups\<rparr>)],
      ?s1\<lparr>visible := visible ?s1 @ take j groups\<rparr>)"
    using resolve_groups_first_failure [OF j(1,2) f] by simp
  finally show ?thesis
    by (simp add: tw)
qed

theorem removed_group_fails_witness:
  "guard \<notin> macros fresh \<and> ''../c/litert_metrics.h'' \<in> set groups \<and>
   list_all (resolvable all_present) groups \<and>
   resolve_header (without ''../c/litert_metrics.h'' all_present) fresh =
     Inl ([(FileNotFound ''../c/litert_metrics.h'',
            \<lparr>macros = {guard},
             visible = [''../c/internal/litert_logging.h'', ''../c/litert_common.h'',
               ''../c/litert_compiled_model.h'', ''../c/litert_environment.h'',
               ''../c/litert_environment_options.h'', ''../c/litert_event.h'']\<rparr>)],
          \<lparr>macros = {guard},
           visible = [''../c/internal/litert_logging.h'', ''../c/litert_common.h'',
             ''../c/litert_compiled_model.h'', ''../c/litert_environment.h'',
             ''../c/litert_environment_options.h'', ''../c/litert_event.h'']\<rparr>)"
proof -
  have m: "''../c/litert_metrics.h'' \<in> set groups" by (simp add: groups_eq)
  have o: "\<forall>q\<in>set groups. q \<noteq> ''../c/litert_metrics.h'' \<longrightarrow> resolvable all_present q"
    by (simp add: resolvable_all_present)
  have "resolve_header (without ''../c/litert_metrics.h'' all_present) fresh =
     Inl ([(FileNotFound ''../c/litert_metrics.h'',
            fresh\<lparr>macros := insert guard (macros fresh),
              visible := visible fresh @
                takeWhile (\<lambda>q. q \<noteq> ''../c/litert_metrics.h'') groups\<rparr>)],
          fresh\<lparr>macros := insert guard (macros fresh),
            visible := visible fresh @
              takeWhile (\<lambda>q. q \<noteq> ''../c/litert_metrics.h'') groups\<rparr>)"
    using removed_group_fails [OF guard_fresh m o] .
  then have "resolve_header (without ''../c/litert_metrics.h'' all_present) fresh =
     Inl ([(FileNotFound ''../c/litert_metrics.h'',
            \<lparr>macros = {guard},
             visible = [''../c/internal/litert_logging.h'', ''../c/litert_common.h'',
               ''../c/litert_compiled_model.h'', ''../c/litert_environment.h'',
               ''../c/litert_environment_options.h'', ''../c/litert_event.h'']\<rparr>)],
          \<lparr>macros = {guard},
           visible = [''../c/internal/litert_logging.h'', ''../c/litert_common.h'',
             ''../c/litert_compiled_model.h'', ''../c/litert_environment.h'',
             ''../c/litert_environment_options.h'', ''../c/litert_event.h'']\<rparr>)"
    by (simp add: fresh_def groups_eq)
  then show ?thesis
    using m guard_fresh all_present_resolvable by blast
qed

text \<open>
  Claim C5 as stated fails where the guard macro is already defined: one listed group has
  been removed, the other twelve resolve, and resolving the header does not fail.
\<close>

theorem removed_group_fails_counterexample:
  "''../c/litert_event.h'' \<in> set groups \<and>
   list_all (resolvable (without ''../c/litert_event.h'' all_present))
     (remove1 ''../c/litert_event.h'' groups) \<and>
   \<not> resolvable (without ''../c/litert_event.h'' all_present) ''../c/litert_event.h'' \<and>
   resolve_header (without ''../c/litert_event.h'' all_present) guarded = Inr guarded"
proof -
  have "resolve_header (without ''../c/litert_event.h'' all_present) guarded = Inr guarded"
    using guard_guarded by (rule resolve_header_defined)
  moreover have "list_all (resolvable (without ''../c/litert_event.h'' all_present))
     (remove1 ''../c/litert_event.h'' groups)"
    by (simp add: groups_eq resolvable_without resolvable_all_present)
  moreover have "''../c/litert_event.h'' \<in> set groups" by (simp add: groups_eq)
  ultimately show ?thesis by (simp add: resolvable_without)
qed

text \<open>
  Claim C6: for every permutation of the thirteen include lines, resolving the header
  with its includes in that order succeeds if and only if resolving the header as written
  succeeds.
\<close>

theorem include_order_irrelevant:
  assumes "mset ps = mset groups"
  shows "header_with groups = wrapper_h \<and>
         succeeds (process fs (header_with ps) 0 0 s) = succeeds (resolve_header fs s)"
proof -
  have "set ps = set groups" using assms by (rule mset_eq_setD)
  then have all: "list_all (resolvable fs) ps = list_all (resolvable fs) groups"
    by (simp add: list_all_iff)
  have "succeeds (process fs (header_with ps) 0 0 s) = succeeds (resolve_header fs s)"
  proof (cases "guard \<in> macros s")
    case True
    then show ?thesis
      by (simp add: process_header_with_defined resolve_header_defined)
  next
    case False
    then show ?thesis
      by (simp add: process_header_with_undefined resolve_header_undefined
          resolve_groups_succeeds all)
  qed
  then show ?thesis by (simp add: header_with_groups)
qed

theorem include_order_irrelevant_witness:
  "mset (rev groups) = mset groups \<and>
   succeeds (process all_present (header_with (rev groups)) 0 0 fresh) \<and>
   succeeds (resolve_header all_present fresh) \<and>
   \<not> succeeds (process (without ''../c/litert_metrics.h'' all_present) (header_with (rev groups)) 0 0 fresh) \<and>
   \<not> succeeds (resolve_header (without ''../c/litert_metrics.h'' all_present) fresh)"
proof -
  have m: "mset (rev groups) = mset groups" by simp
  have a: "succeeds (resolve_header all_present fresh)"
    by (simp add: resolve_header_all_present_fresh)
  have b: "\<not> succeeds (resolve_header (without ''../c/litert_metrics.h'' all_present) fresh)"
    by (simp add: resolve_header_without_metrics)
  show ?thesis
    using include_order_irrelevant [OF m, of all_present fresh]
      include_order_irrelevant [OF m, of "without ''../c/litert_metrics.h'' all_present" fresh]
      a b
    by simp
qed

end
